theory Spec2Isabelle
  imports Main "HOL-Library.Word" "HOL-Library.Multiset"
begin

unbundle bit_operations_syntax

section \<open>Machine types and failures\<close>

text \<open>
  \<open>uint8_t\<close>, \<open>uint64_t\<close> (also \<open>size_t\<close> on the 64-bit target the code needs for
  \<open>__uint128_t\<close>) and \<open>__uint128_t\<close> are words; a \<open>std::vector\<close> is a list and a
  \<open>MatrixType\<close> a list of rows. The code throws no exception anywhere: what can go
  wrong is a remainder by zero and an index read or written past the end of a vector.
  Both are undefined behaviour in C++ and are values of \<open>error\<close> here. Vector lengths
  are taken to be below \<open>2 ^ 31\<close>, so that the \<open>int\<close> casts of row and column indices in
  \<open>gaussian_elimination\<close> are exact; memory exhaustion is not modelled.
\<close>

type_synonym u8 = "8 word"
type_synonym u64 = "64 word"
type_synonym u128 = "128 word"

datatype error = DivisionByZero | OutOfBounds

text \<open>Running a fallible step over a list, left to right, stopping at the first failure.\<close>

fun map_result :: "('a \<Rightarrow> error + 'b) \<Rightarrow> 'a list \<Rightarrow> error + 'b list" where
  "map_result f [] = Inr []"
| "map_result f (x # xs) =
     (case f x of
        Inl e \<Rightarrow> Inl e
      | Inr v \<Rightarrow> (case map_result f xs of Inl e \<Rightarrow> Inl e | Inr vs \<Rightarrow> Inr (v # vs)))"

section \<open>Utils: keyed mixing functions\<close>

definition hash_partition :: "u64 \<Rightarrow> u64 \<Rightarrow> u64" where
  "hash_partition k1 element =
     (let h0 = k1 XOR element;
          h1 = h0 XOR drop_bit 33 h0;
          h2 = h1 * 11400714819323198485;
          h3 = h2 XOR drop_bit 33 h2
      in h3)"

definition prf_value :: "u64 \<Rightarrow> u64 \<Rightarrow> u64" where
  "prf_value key input =
     (let h0 = key XOR input;
          h1 = h0 XOR drop_bit 33 h0;
          h2 = h1 * 11400714819323198485;
          h3 = h2 XOR drop_bit 33 h2
      in h3)"

section \<open>Utils: arithmetic modulo q\<close>

text \<open>
  The operands are widened to 128 bits, combined there (with 128-bit wrap-around, which
  only \<open>sub_mod\<close> can reach, when \<open>b > q\<close>), reduced by \<open>% q\<close> and cut back to 64 bits.
\<close>

definition add_mod :: "u64 \<Rightarrow> u64 \<Rightarrow> u64 \<Rightarrow> error + u64" where
  "add_mod a b q =
     (if q = 0 then Inl DivisionByZero
      else Inr (ucast (((ucast a :: u128) + ucast b) mod ucast q)))"

definition sub_mod :: "u64 \<Rightarrow> u64 \<Rightarrow> u64 \<Rightarrow> error + u64" where
  "sub_mod a b q =
     (if q = 0 then Inl DivisionByZero
      else Inr (ucast (((ucast a :: u128) + (ucast q - ucast b)) mod ucast q)))"

definition mul_mod :: "u64 \<Rightarrow> u64 \<Rightarrow> u64 \<Rightarrow> error + u64" where
  "mul_mod a b q =
     (if q = 0 then Inl DivisionByZero
      else Inr (ucast (((ucast a :: u128) * ucast b) mod ucast q)))"

text \<open>The \<open>while (exp > 0)\<close> loop of \<open>fast_pow\<close>; the exponent is halved in each round.\<close>

function fast_pow_loop :: "u128 \<Rightarrow> u128 \<Rightarrow> u64 \<Rightarrow> u128 \<Rightarrow> u128" where
  "fast_pow_loop result b ex md =
     (if ex \<noteq> 0 then
        fast_pow_loop (if ex AND 1 \<noteq> 0 then (result * b) mod md else result)
                      ((b * b) mod md) (drop_bit 1 ex) md
      else result)"
  by pat_completeness auto
termination
proof (relation "measure (\<lambda>(result, b, ex, md). unat ex)")
  show "wf (measure (\<lambda>(result :: u128, b :: u128, ex :: u64, md :: u128). unat ex))"
    by simp
next
  fix result b md :: u128 and ex :: u64
  assume "ex \<noteq> 0"
  then have "0 < unat ex"
    by (simp add: unat_gt_0)
  moreover have "unat (drop_bit 1 ex) = unat ex div 2"
    unfolding unat_drop_bit_eq by (simp add: drop_bit_eq_div)
  ultimately have "unat (drop_bit 1 ex) < unat ex"
    by simp
  then show "((if ex AND 1 \<noteq> 0 then result * b mod md else result, b * b mod md,
                drop_bit 1 ex, md), result, b, ex, md)
             \<in> measure (\<lambda>(result, b, ex, md). unat ex)"
    by simp
qed

definition fast_pow :: "u64 \<Rightarrow> u64 \<Rightarrow> u64 \<Rightarrow> error + u64" where
  "fast_pow base ex q =
     (if q = 1 then Inr 0
      else if q = 0 then Inl DivisionByZero
      else Inr (ucast (fast_pow_loop 1 (ucast (base mod q)) ex (ucast q))))"

definition mod_inverse :: "u64 \<Rightarrow> u64 \<Rightarrow> error + u64" where
  "mod_inverse a q = (if a = 0 then Inr 0 else fast_pow a (q - 2) q)"

text \<open>
  \<open>sparse_vector\<close>: the loop \<open>for (i = 0; i < band_width; i++)\<close> writes \<open>v[pos + i]\<close>;
  the counter is a \<open>size_t\<close>, so \<open>element + i\<close> is a 64-bit sum. A write at or past
  \<open>dimension\<close> is out of bounds (and comes before \<open>pos + i\<close> could wrap around).
\<close>

fun sparse_fill :: "u64 \<Rightarrow> u64 \<Rightarrow> nat \<Rightarrow> nat list \<Rightarrow> u8 list \<Rightarrow> error + u8 list" where
  "sparse_fill k2 element pos [] v = Inr v"
| "sparse_fill k2 element pos (i # rest) v =
     (if pos + i < length v
      then sparse_fill k2 element pos rest
             (v[pos + i := ucast (hash_partition (k2 XOR (element + of_nat i)) element mod 2)])
      else Inl OutOfBounds)"

definition sparse_vector :: "u64 \<Rightarrow> u64 \<Rightarrow> u64 \<Rightarrow> u64 \<Rightarrow> error + u8 list" where
  "sparse_vector k2 element dimension band_width =
     (let v = replicate (unat dimension) (0 :: u8);
          h_pos = hash_partition k2 element
      in if dimension - band_width + 1 = 0 then Inl DivisionByZero
         else sparse_fill k2 element (unat (h_pos mod (dimension - band_width + 1)))
                [0 ..< unat band_width] v)"

section \<open>Matrix: componentwise sum\<close>

text \<open>
  \<open>matrix_add\<close> takes the shape from \<open>A\<close> (\<open>A.size()\<close> rows, \<open>A[0].size()\<close> columns) and
  reads \<open>A[i][j]\<close> and \<open>B[i][j]\<close> for every index of that shape.
\<close>

definition matrix_add_entry :: "u64 list list \<Rightarrow> u64 list list \<Rightarrow> u64 \<Rightarrow> nat \<Rightarrow> nat \<Rightarrow> error + u64" where
  "matrix_add_entry A B q i j =
     (if i < length A \<and> j < length (A ! i) \<and> i < length B \<and> j < length (B ! i)
      then add_mod (A ! i ! j) (B ! i ! j) q
      else Inl OutOfBounds)"

definition matrix_add :: "u64 list list \<Rightarrow> u64 list list \<Rightarrow> u64 \<Rightarrow> error + u64 list list" where
  "matrix_add A B q =
     (case A of
        [] \<Rightarrow> Inl OutOfBounds
      | A0 # _ \<Rightarrow>
          map_result (\<lambda>i. map_result (\<lambda>j. matrix_add_entry A B q i j) [0 ..< length A0])
            [0 ..< length A])"

definition zero_matrix :: "nat \<Rightarrow> nat \<Rightarrow> u64 list list" where
  "zero_matrix rows cols = replicate rows (replicate cols 0)"

text \<open>
  Summing a list of matrices with \<open>matrix_add\<close>, from left to right: \<open>matrix_add_all\<close>
  starts from a given matrix (a running sum, or \<open>zero_matrix\<close>), \<open>matrix_sum\<close> from the
  first matrix of the list.
\<close>

fun matrix_add_all :: "u64 list list \<Rightarrow> u64 list list list \<Rightarrow> u64 \<Rightarrow> error + u64 list list" where
  "matrix_add_all acc [] q = Inr acc"
| "matrix_add_all acc (A # rest) q =
     (case matrix_add acc A q of Inl e \<Rightarrow> Inl e | Inr acc' \<Rightarrow> matrix_add_all acc' rest q)"

definition matrix_sum :: "u64 list list list \<Rightarrow> u64 \<Rightarrow> error + u64 list list" where
  "matrix_sum As q = (case As of [] \<Rightarrow> Inl OutOfBounds | A # rest \<Rightarrow> matrix_add_all A rest q)"

definition has_shape :: "nat \<Rightarrow> nat \<Rightarrow> u64 list list \<Rightarrow> bool" where
  "has_shape r c A \<longleftrightarrow> length A = r \<and> (\<forall>row \<in> set A. length row = c)"

definition entries_below :: "u64 \<Rightarrow> u64 list list \<Rightarrow> bool" where
  "entries_below q A \<longleftrightarrow> (\<forall>row \<in> set A. \<forall>x \<in> set row. x < q)"

section \<open>Matrix: Gaussian elimination over Z_q\<close>

text \<open>
  Step 1 of \<open>gaussian_elimination\<close>: the augmented matrix. Row \<open>i\<close> reads \<open>M[i][j]\<close> for
  \<open>j < d1\<close> and then \<open>y[i]\<close>; entries of a row of \<open>M\<close> beyond \<open>d1\<close> are never read.
\<close>

definition augmented_row :: "nat \<Rightarrow> u64 list \<Rightarrow> u64 list \<Rightarrow> nat \<Rightarrow> error + u64 list" where
  "augmented_row d1 Mi y i =
     (if length Mi < d1 \<or> length y \<le> i then Inl OutOfBounds
      else Inr (take d1 Mi @ [y ! i]))"

fun build_augmented :: "nat \<Rightarrow> u64 list list \<Rightarrow> u64 list \<Rightarrow> nat \<Rightarrow> error + u64 list list" where
  "build_augmented d1 [] y i = Inr []"
| "build_augmented d1 (Mi # rest) y i =
     (case augmented_row d1 Mi y i of
        Inl e \<Rightarrow> Inl e
      | Inr r \<Rightarrow>
          (case build_augmented d1 rest y (Suc i) of
             Inl e \<Rightarrow> Inl e
           | Inr rs \<Rightarrow> Inr (r # rs)))"

text \<open>
  Step 2, forward elimination. From here on every index is inside the \<open>m \<times> (d1 + 1)\<close>
  augmented matrix, so the only failure left is the remainder by \<open>q = 0\<close>.
\<close>

definition find_pivot :: "u64 list list \<Rightarrow> nat \<Rightarrow> nat \<Rightarrow> nat option" where
  "find_pivot aug col pivot_row =
     find (\<lambda>row. aug ! row ! col \<noteq> 0) [pivot_row ..< length aug]"

definition swap_rows :: "nat \<Rightarrow> nat \<Rightarrow> 'a list \<Rightarrow> 'a list" where
  "swap_rows i j xs = xs[i := xs ! j, j := xs ! i]"

definition normalize_row :: "u64 \<Rightarrow> u64 \<Rightarrow> nat \<Rightarrow> u64 list \<Rightarrow> error + u64 list" where
  "normalize_row q pivot_inv col row =
     (case map_result (\<lambda>x. mul_mod x pivot_inv q) (drop col row) of
        Inl e \<Rightarrow> Inl e
      | Inr vs \<Rightarrow> Inr (take col row @ vs))"

definition eliminate_entry :: "u64 \<Rightarrow> u64 \<Rightarrow> u64 \<times> u64 \<Rightarrow> error + u64" where
  "eliminate_entry q factor px =
     (case mul_mod factor (fst px) q of
        Inl e \<Rightarrow> Inl e
      | Inr term \<Rightarrow> sub_mod (snd px) term q)"

definition eliminate_row :: "u64 \<Rightarrow> nat \<Rightarrow> u64 list \<Rightarrow> u64 list \<Rightarrow> error + u64 list" where
  "eliminate_row q col prow row =
     (let factor = row ! col
      in if factor = 0 then Inr row
         else (case map_result (eliminate_entry q factor) (zip (drop col prow) (drop col row)) of
                 Inl e \<Rightarrow> Inl e
               | Inr vs \<Rightarrow> Inr (take col row @ vs)))"

definition pivot_step :: "u64 \<Rightarrow> nat \<Rightarrow> nat \<Rightarrow> nat \<Rightarrow> u64 list list \<Rightarrow> error + u64 list list" where
  "pivot_step q col pivot_row best_row aug =
     (let aug1 = swap_rows pivot_row best_row aug;
          pivot = aug1 ! pivot_row ! col
      in case mod_inverse pivot q of
           Inl e \<Rightarrow> Inl e
         | Inr pivot_inv \<Rightarrow>
             (case normalize_row q pivot_inv col (aug1 ! pivot_row) of
                Inl e \<Rightarrow> Inl e
              | Inr prow \<Rightarrow>
                  (case map_result (eliminate_row q col prow) (drop (Suc pivot_row) aug1) of
                     Inl e \<Rightarrow> Inl e
                   | Inr below \<Rightarrow> Inr (take pivot_row aug1 @ prow # below))))"

text \<open>
  The loop \<open>for (col = 0; col < d1 && pivot_row < m; col++)\<close>, by recursion over the
  columns still to visit.
\<close>

fun forward_elimination ::
  "u64 \<Rightarrow> nat list \<Rightarrow> nat \<Rightarrow> u64 list list \<Rightarrow> error + (u64 list list \<times> nat)" where
  "forward_elimination q [] pivot_row aug = Inr (aug, pivot_row)"
| "forward_elimination q (col # cols) pivot_row aug =
     (if pivot_row < length aug then
        (case find_pivot aug col pivot_row of
           None \<Rightarrow> forward_elimination q cols pivot_row aug
         | Some best_row \<Rightarrow>
             (case pivot_step q col pivot_row best_row aug of
                Inl e \<Rightarrow> Inl e
              | Inr aug' \<Rightarrow> forward_elimination q cols (Suc pivot_row) aug'))
      else Inr (aug, pivot_row))"

text \<open>Step 3, back substitution, from the last pivot row up to row 0.\<close>

definition leading_col :: "u64 list \<Rightarrow> nat \<Rightarrow> nat option" where
  "leading_col row d1 = find (\<lambda>j. row ! j \<noteq> 0) [0 ..< d1]"

fun residual :: "u64 \<Rightarrow> u64 list \<Rightarrow> u64 list \<Rightarrow> nat list \<Rightarrow> u64 \<Rightarrow> error + u64" where
  "residual q row result [] s = Inr s"
| "residual q row result (j # js) s =
     (case mul_mod (row ! j) (result ! j) q of
        Inl e \<Rightarrow> Inl e
      | Inr term \<Rightarrow>
          (case sub_mod s term q of
             Inl e \<Rightarrow> Inl e
           | Inr s' \<Rightarrow> residual q row result js s'))"

definition back_row :: "u64 \<Rightarrow> nat \<Rightarrow> u64 list \<Rightarrow> u64 list \<Rightarrow> error + u64 list" where
  "back_row q d1 row result =
     (case leading_col row d1 of
        None \<Rightarrow> Inr result
      | Some lc \<Rightarrow>
          (case residual q row result [Suc lc ..< d1] (row ! d1) of
             Inl e \<Rightarrow> Inl e
           | Inr s \<Rightarrow>
               (let pivot = row ! lc
                in if pivot \<noteq> 0 then
                     (case mod_inverse pivot q of
                        Inl e \<Rightarrow> Inl e
                      | Inr pivot_inv \<Rightarrow>
                          (case mul_mod s pivot_inv q of
                             Inl e \<Rightarrow> Inl e
                           | Inr v \<Rightarrow> Inr (result[lc := v])))
                   else Inr result)))"

fun back_substitution ::
  "u64 \<Rightarrow> nat \<Rightarrow> u64 list list \<Rightarrow> nat list \<Rightarrow> u64 list \<Rightarrow> error + u64 list" where
  "back_substitution q d1 aug [] result = Inr result"
| "back_substitution q d1 aug (i # rest) result =
     (case back_row q d1 (aug ! i) result of
        Inl e \<Rightarrow> Inl e
      | Inr result' \<Rightarrow> back_substitution q d1 aug rest result')"

definition gaussian_elimination :: "u64 list list \<Rightarrow> u64 list \<Rightarrow> u64 \<Rightarrow> error + u64 list" where
  "gaussian_elimination M y q =
     (case M of
        [] \<Rightarrow> Inr []
      | M0 # _ \<Rightarrow>
          (let d1 = length M0
           in case build_augmented d1 M y 0 of
                Inl e \<Rightarrow> Inl e
              | Inr aug \<Rightarrow>
                  (case forward_elimination q [0 ..< d1] 0 aug of
                     Inl e \<Rightarrow> Inl e
                   | Inr (aug', pivot_row) \<Rightarrow>
                       back_substitution q d1 aug' (rev [0 ..< min pivot_row d1])
                         (replicate d1 0))))"

section \<open>Notions used to state the properties\<close>

text \<open>A prime, with the divisors checked over a finite range so that it can be evaluated.\<close>

definition is_prime :: "nat \<Rightarrow> bool" where
  "is_prime p \<longleftrightarrow> 1 < p \<and> (\<forall>d \<in> {2 ..< p}. \<not> d dvd p)"



text \<open>
  The rows that receive a pivot. \<open>pivot_order\<close> follows the decisions of
  \<open>forward_elimination\<close> and carries, beside the matrix, the list \<open>idx\<close> that tells which
  row of the input stands at each position; it is swapped exactly as the rows are. When
  the loop ends, the first \<open>pivot_row\<close> positions hold the rows that were given a pivot.
\<close>

fun pivot_order :: "u64 \<Rightarrow> nat list \<Rightarrow> nat \<Rightarrow> u64 list list \<Rightarrow> nat list \<Rightarrow> nat list" where
  "pivot_order q [] pivot_row aug idx = take pivot_row idx"
| "pivot_order q (col # cols) pivot_row aug idx =
     (if pivot_row < length aug then
        (case find_pivot aug col pivot_row of
           None \<Rightarrow> pivot_order q cols pivot_row aug idx
         | Some best_row \<Rightarrow>
             (case pivot_step q col pivot_row best_row aug of
                Inl e \<Rightarrow> []
              | Inr aug' \<Rightarrow>
                  pivot_order q cols (Suc pivot_row) aug' (swap_rows pivot_row best_row idx)))
      else take pivot_row idx)"

definition pivoted_rows :: "u64 list list \<Rightarrow> u64 list \<Rightarrow> u64 \<Rightarrow> nat list" where
  "pivoted_rows M y q =
     (case M of
        [] \<Rightarrow> []
      | M0 # _ \<Rightarrow>
          (case build_augmented (length M0) M y 0 of
             Inl e \<Rightarrow> []
           | Inr aug \<Rightarrow> pivot_order q [0 ..< length M0] 0 aug [0 ..< length M]))"

text \<open>
  The values of \<open>mul_mod\<close> and \<open>sub_mod\<close> when \<open>q\<close> is not zero, and the two row operations
  of a pivot step written with them; the proofs relate the code to these.
\<close>

definition mulq :: "u64 \<Rightarrow> u64 \<Rightarrow> u64 \<Rightarrow> u64" where
  "mulq q a b = of_nat (unat a * unat b mod unat q)"


definition scale_row :: "u64 \<Rightarrow> u64 \<Rightarrow> nat \<Rightarrow> u64 list \<Rightarrow> u64 list" where
  "scale_row q pivot_inv col row = take col row @ map (\<lambda>x. mulq q x pivot_inv) (drop col row)"


text \<open>The matrix whose entries are the sums, modulo \<open>q\<close>, of the entries of a list of matrices.\<close>

definition sum_matrix :: "nat \<Rightarrow> nat \<Rightarrow> u64 \<Rightarrow> u64 list list list \<Rightarrow> u64 list list" where
  "sum_matrix r c q As =
     map (\<lambda>i. map (\<lambda>j. of_nat (sum_list (map (\<lambda>A. unat (A ! i ! j)) As) mod unat q)) [0 ..< c])
       [0 ..< r]"



section \<open>Facts: the arithmetic modulo q\<close>

text \<open>
  The 128-bit intermediate results do not overflow, so each operation is the
  arithmetic of natural numbers modulo \<open>q\<close>.
\<close>

lemma u64_bound: "unat (a :: u64) < 2 ^ 64"
  using unsigned_less [of a] by simp

lemma unat_up: "unat (ucast (a :: u64) :: u128) = unat a"
proof -
  have "unat a < 2 ^ 128"
    using u64_bound [of a] by simp
  then show ?thesis
    by (simp add: unsigned_ucast_eq take_bit_nat_eq_self)
qed

lemma unat_down: "unat (x :: u128) < 2 ^ 64 \<Longrightarrow> unat (ucast x :: u64) = unat x"
  by (simp add: unsigned_ucast_eq take_bit_nat_eq_self)

lemma unat_of_nat_u64: "n < 2 ^ 64 \<Longrightarrow> unat (of_nat n :: u64) = n"
  by (simp add: unat_of_nat)

lemma unat_mul_u128: "unat ((ucast (a :: u64) :: u128) * ucast (b :: u64)) = unat a * unat b"
proof -
  have "unat a * unat b < 2 ^ 64 * 2 ^ 64"
    using u64_bound [of a] u64_bound [of b] by (intro mult_strict_mono) simp_all
  then have "unat a * unat b < 2 ^ 128" by simp
  then show ?thesis
    by (simp add: unat_word_ariths unat_up)
qed

lemma unat_add_u128: "unat ((ucast (a :: u64) :: u128) + ucast (b :: u64)) = unat a + unat b"
proof -
  have "unat a + unat b < 2 ^ 64 + 2 ^ 64"
    using u64_bound [of a] u64_bound [of b] by simp
  then have "unat a + unat b < 2 ^ 128" by simp
  then show ?thesis
    by (simp add: unat_word_ariths unat_up)
qed

lemma mod_q_bound: "q \<noteq> 0 \<Longrightarrow> n mod unat (q :: u64) < 2 ^ 64"
proof -
  assume "q \<noteq> 0"
  then have "0 < unat q" by (simp add: unat_gt_0)
  then have "n mod unat q < unat q" by simp
  also have "\<dots> < 2 ^ 64" by (rule u64_bound)
  finally show ?thesis .
qed

lemma reduce_u128: 
  assumes "q \<noteq> 0"
  shows "(ucast ((x :: u128) mod ucast (q :: u64)) :: u64) = of_nat (unat x mod unat q)"
proof -
  have "unat (x mod ucast q) = unat x mod unat q"
    by (simp add: unat_mod unat_up)
  moreover have "unat x mod unat q < 2 ^ 64" using assms by (rule mod_q_bound)
  ultimately have "unat (ucast (x mod ucast q) :: u64) = unat x mod unat q"
    by (simp add: unat_down)
  then show ?thesis
    by (metis of_nat_unat ucast_id)
qed

lemma mul_mod_eq: "q \<noteq> 0 \<Longrightarrow> mul_mod a b q = Inr (of_nat (unat a * unat b mod unat q))"
  by (simp add: mul_mod_def reduce_u128 unat_mul_u128)

lemma add_mod_eq: "q \<noteq> 0 \<Longrightarrow> add_mod a b q = Inr (of_nat ((unat a + unat b) mod unat q))"
  by (simp add: add_mod_def reduce_u128 unat_add_u128)


section \<open>Facts: the augmented matrix\<close>

lemma map_result_eq:
  "(\<And>x. x \<in> set xs \<Longrightarrow> f x = Inr (g x)) \<Longrightarrow> map_result f xs = Inr (map g xs)"
  by (induction xs) simp_all

lemma build_augmented_eq:
  "\<forall>row \<in> set M. d1 \<le> length row \<Longrightarrow> i + length M \<le> length y \<Longrightarrow>
   build_augmented d1 M y i = Inr (map (\<lambda>k. take d1 (M ! k) @ [y ! (i + k)]) [0 ..< length M])"
proof (induction M arbitrary: i)
  case Nil
  then show ?case by simp
next
  case (Cons Mi rest)
  have "build_augmented d1 rest y (Suc i) =
        Inr (map (\<lambda>k. take d1 (rest ! k) @ [y ! (Suc i + k)]) [0 ..< length rest])"
    using Cons.prems by (intro Cons.IH) auto
  moreover have "augmented_row d1 Mi y i = Inr (take d1 Mi @ [y ! i])"
    using Cons.prems by (simp add: augmented_row_def)
  moreover have "map (\<lambda>k. take d1 ((Mi # rest) ! k) @ [y ! (i + k)]) [0 ..< length (Mi # rest)]
     = (take d1 Mi @ [y ! i]) # map (\<lambda>k. take d1 (rest ! k) @ [y ! (Suc i + k)]) [0 ..< length rest]"
    by (simp add: upt_conv_Cons map_Suc_upt [symmetric] del: upt_Suc)
  ultimately show ?case by simp
qed

lemma build_augmented_short_row:
  "\<exists>row \<in> set M. length row < d1 \<Longrightarrow> build_augmented d1 M y i = Inl OutOfBounds"
proof (induction M arbitrary: i)
  case Nil
  then show ?case by simp
next
  case (Cons Mi rest)
  show ?case
  proof (cases "augmented_row d1 Mi y i")
    case (Inl e)
    then have "e = OutOfBounds" by (auto simp: augmented_row_def split: if_splits)
    with Inl show ?thesis by simp
  next
    case (Inr r)
    then have "\<not> length Mi < d1" by (auto simp: augmented_row_def split: if_splits)
    with Cons.prems have "\<exists>row \<in> set rest. length row < d1" by auto
    then have "build_augmented d1 rest y (Suc i) = Inl OutOfBounds" by (rule Cons.IH)
    with Inr show ?thesis by simp
  qed
qed

lemma build_augmented_take:
  "build_augmented d1 (map (take d1) M) y i = build_augmented d1 M y i"
  by (induction M arbitrary: i) (simp_all add: augmented_row_def min_def)

lemma ge_empty_first_row:
  assumes "M \<noteq> []" "hd M = []" "length M \<le> length y"
  shows "gaussian_elimination M y q = Inr []"
proof -
  obtain M0 rest where M: "M = M0 # rest" using assms(1) by (cases M) auto
  with assms(2) have M0: "M0 = []" by simp
  have "build_augmented 0 M y 0 = Inr (map (\<lambda>k. take 0 (M ! k) @ [y ! (0 + k)]) [0 ..< length M])"
    using assms(3) by (intro build_augmented_eq) auto
  then show ?thesis
    by (simp add: gaussian_elimination_def M M0)
qed

section \<open>Facts: a pivot step without failure\<close>













lemma length_scale_row [simp]: "length (scale_row q pivot_inv col row) = length row"
  by (simp add: scale_row_def)


lemma length_swap_rows [simp]: "length (swap_rows i j xs) = length xs"
  by (simp add: swap_rows_def)



lemma has_shape_nth: "has_shape m n aug \<Longrightarrow> i < m \<Longrightarrow> length (aug ! i) = n"
  by (simp add: has_shape_def)





section \<open>Facts: the solver returns\<close>






lemma gaussian_elimination_take:
  "gaussian_elimination (map (take (length (hd M))) M) y q = gaussian_elimination M y q"
proof (cases M)
  case Nil
  then show ?thesis by simp
next
  case (Cons M0 rest)
  have "build_augmented (length M0) (map (take (length M0)) M) y 0 = build_augmented (length M0) M y 0"
    by (rule build_augmented_take)
  then show ?thesis
    unfolding gaussian_elimination_def Cons by simp
qed

lemma gaussian_elimination_short_row:
  assumes "\<exists>row \<in> set M. length row < length (hd M)"
  shows "gaussian_elimination M y q = Inl OutOfBounds"
proof -
  obtain M0 rest where M: "M = M0 # rest" using assms by (cases M) auto
  have "build_augmented (length M0) M y 0 = Inl OutOfBounds"
    using assms M by (intro build_augmented_short_row) simp
  then show ?thesis
    unfolding gaussian_elimination_def M by simp
qed

section \<open>Facts: the band vector\<close>

lemma sparse_fill_eq:
  "\<forall>i \<in> set idxs. pos + i < length v \<Longrightarrow>
   sparse_fill k2 element pos idxs v =
     Inr (fold (\<lambda>i v. v[pos + i := ucast (hash_partition (k2 XOR (element + of_nat i)) element mod 2)])
            idxs v)"
  by (induction idxs arbitrary: v) simp_all

lemma length_fold_update [simp]: "length (fold (\<lambda>i v. v[f i := g i]) idxs v) = length v"
  by (induction idxs arbitrary: v) simp_all

lemma nth_fold_band:
  "(fold (\<lambda>i v. v[pos + i := g i]) [0 ..< w] v) ! j =
     (if pos \<le> j \<and> j < pos + w \<and> j < length v then g (j - pos) else v ! j)"
proof (induction w)
  case 0
  then show ?case by auto
next
  case (Suc w)
  show ?case
  proof (cases "j = pos + w")
    case True
    then show ?thesis using Suc by (cases "pos + w < length v") (auto simp: list_update_beyond)
  next
    case False
    then show ?thesis using Suc by auto
  qed
qed

lemma mod2_cases: "(h :: u64) mod 2 = 0 \<or> h mod 2 = 1"
proof -
  have "unat (h mod 2) = unat h mod 2" by (simp add: unat_mod)
  then have "unat (h mod 2) = 0 \<or> unat (h mod 2) = 1" by presburger
  then show ?thesis by (metis unat_eq_zero unat_1 word_unat_eq_iff)
qed

lemma ucast_mod2_cases: "(ucast ((h :: u64) mod 2) :: u8) = 0 \<or> (ucast (h mod 2) :: u8) = 1"
proof -
  consider "h mod 2 = 0" | "h mod 2 = 1" using mod2_cases [of h] by blast
  then show ?thesis
  proof cases
    case 1
    then show ?thesis by (simp only: ucast_0 simp_thms)
  next
    case 2
    then show ?thesis by (simp only: ucast_1 simp_thms)
  qed
qed

lemma band_start:
  assumes "1 \<le> w" "w \<le> (d1 :: u64)"
  shows "d1 - w + 1 \<noteq> 0"
    and "unat (h mod (d1 - w + 1)) = unat h mod (unat d1 - unat w + 1)"
    and "unat (h mod (d1 - w + 1)) + unat w \<le> unat d1"
proof -
  have w1: "1 \<le> unat w" using assms(1) by (simp add: word_le_nat_alt)
  have wd: "unat w \<le> unat d1" using assms(2) by (simp add: word_le_nat_alt)
  have sub: "unat (d1 - w) = unat d1 - unat w" using assms(2) by (simp add: unat_sub)
  have "unat d1 - unat w + 1 \<le> unat d1" using w1 wd by simp
  also have "\<dots> < 2 ^ 64" by (rule u64_bound)
  finally have lt: "unat (d1 - w) + unat (1 :: u64) < 2 ^ LENGTH(64)" using sub by simp
  have md: "unat (d1 - w + 1) = unat d1 - unat w + 1"
    using lt sub by (simp add: unat_add_lem [THEN iffD1])
  then show "d1 - w + 1 \<noteq> 0" by (metis Suc_eq_plus1 nat.simps(3) unat_0)
  show eq: "unat (h mod (d1 - w + 1)) = unat h mod (unat d1 - unat w + 1)"
    by (simp add: unat_mod md)
  have "unat h mod (unat d1 - unat w + 1) < unat d1 - unat w + 1" by simp
  then show "unat (h mod (d1 - w + 1)) + unat w \<le> unat d1" using eq wd by linarith
qed

lemma sparse_vector_eq:
  assumes "1 \<le> w" "w \<le> d1"
  shows "sparse_vector k2 x d1 w =
    Inr (fold (\<lambda>i v. v[unat (hash_partition k2 x) mod (unat d1 - unat w + 1) + i :=
                 ucast (hash_partition (k2 XOR (x + of_nat i)) x mod 2)])
           [0 ..< unat w] (replicate (unat d1) 0))"
proof -
  let ?h = "hash_partition k2 x"
  have "\<forall>i \<in> set [0 ..< unat w]. unat (?h mod (d1 - w + 1)) + i < length (replicate (unat d1) (0 :: u8))"
    using band_start(3) [OF assms, of ?h] by auto
  then show ?thesis
    using band_start(1,2) [OF assms]
    by (simp add: sparse_vector_def Let_def sparse_fill_eq)
qed

section \<open>Facts: sums of matrices\<close>

lemma matrix_add_eq:
  assumes "has_shape r c A" "has_shape r c B" "0 < r" "q \<noteq> 0"
  shows "matrix_add A B q =
    Inr (map (\<lambda>i. map (\<lambda>j. of_nat ((unat (A ! i ! j) + unat (B ! i ! j)) mod unat q)) [0 ..< c])
           [0 ..< r])"
proof -
  obtain A0 rest where A: "A = A0 # rest" using assms(1,3) by (cases A) (auto simp: has_shape_def)
  have lenA: "length A = r" and lenB: "length B = r"
    using assms(1,2) by (simp_all add: has_shape_def)
  have c: "length A0 = c" using assms(1) A by (simp add: has_shape_def)
  have entry: "matrix_add_entry A B q i j = Inr (of_nat ((unat (A ! i ! j) + unat (B ! i ! j)) mod unat q))"
    if "i < r" "j < c" for i j
    using that assms has_shape_nth [OF assms(1) that(1)] has_shape_nth [OF assms(2) that(1)]
    by (simp add: matrix_add_entry_def lenA lenB add_mod_eq)
  have row: "map_result (\<lambda>j. matrix_add_entry A B q i j) [0 ..< c] =
      Inr (map (\<lambda>j. of_nat ((unat (A ! i ! j) + unat (B ! i ! j)) mod unat q)) [0 ..< c])"
    if "i < r" for i
    by (rule map_result_eq) (simp add: entry that)
  have "map_result (\<lambda>i. map_result (\<lambda>j. matrix_add_entry A B q i j) [0 ..< c]) [0 ..< r] =
      Inr (map (\<lambda>i. map (\<lambda>j. of_nat ((unat (A ! i ! j) + unat (B ! i ! j)) mod unat q)) [0 ..< c]) [0 ..< r])"
    by (rule map_result_eq) (simp add: row)
  then show ?thesis
    using lenA c by (simp add: matrix_add_def A)
qed

lemma has_shape_sum_matrix [simp]: "has_shape r c (sum_matrix r c q As)"
  by (auto simp: has_shape_def sum_matrix_def)

lemma sum_matrix_nth:
  "i < r \<Longrightarrow> j < c \<Longrightarrow>
   sum_matrix r c q As ! i ! j = of_nat (sum_list (map (\<lambda>A. unat (A ! i ! j)) As) mod unat q)"
  by (simp add: sum_matrix_def)

lemma matrix_add_sum_matrix:
  assumes "has_shape r c A" "0 < r" "q \<noteq> 0"
  shows "matrix_add (sum_matrix r c q Bs) A q = Inr (sum_matrix r c q (Bs @ [A]))"
proof -
  have "of_nat ((unat (sum_matrix r c q Bs ! i ! j) + unat (A ! i ! j)) mod unat q) =
        (of_nat (sum_list (map (\<lambda>A. unat (A ! i ! j)) (Bs @ [A])) mod unat q) :: u64)"
    if "i < r" "j < c" for i j
  proof -
    have "unat (sum_matrix r c q Bs ! i ! j) = sum_list (map (\<lambda>A. unat (A ! i ! j)) Bs) mod unat q"
      using that assms(3) by (simp add: sum_matrix_nth unat_of_nat_u64 [OF mod_q_bound])
    then show ?thesis by (simp add: mod_add_left_eq)
  qed
  then have "map (\<lambda>i. map (\<lambda>j. of_nat ((unat (sum_matrix r c q Bs ! i ! j) + unat (A ! i ! j)) mod unat q)) [0 ..< c]) [0 ..< r]
     = sum_matrix r c q (Bs @ [A])"
    unfolding sum_matrix_def [of r c q "Bs @ [A]"] by (intro map_cong refl) simp_all
  then show ?thesis
    using matrix_add_eq [OF has_shape_sum_matrix assms(1,2,3), of q Bs] by simp
qed

lemma matrix_add_all_sum_matrix:
  "\<forall>A \<in> set As. has_shape r c A \<Longrightarrow> 0 < r \<Longrightarrow> q \<noteq> 0 \<Longrightarrow>
   matrix_add_all (sum_matrix r c q Bs) As q = Inr (sum_matrix r c q (Bs @ As))"
proof (induction As arbitrary: Bs)
  case Nil
  then show ?case by simp
next
  case (Cons A As)
  have "matrix_add (sum_matrix r c q Bs) A q = Inr (sum_matrix r c q (Bs @ [A]))"
    using Cons.prems by (intro matrix_add_sum_matrix) simp_all
  moreover have "matrix_add_all (sum_matrix r c q (Bs @ [A])) As q = Inr (sum_matrix r c q ((Bs @ [A]) @ As))"
    using Cons.prems by (intro Cons.IH) simp_all
  ultimately show ?case by simp
qed

lemma sum_matrix_Nil: "sum_matrix r c q [] = zero_matrix r c"
  by (simp add: sum_matrix_def zero_matrix_def map_replicate_const)

lemma matrix_add_all_zero:
  assumes "\<forall>A \<in> set As. has_shape r c A" "0 < r" "q \<noteq> 0"
  shows "matrix_add_all (zero_matrix r c) As q = Inr (sum_matrix r c q As)"
  using matrix_add_all_sum_matrix [OF assms, of "[]"] by (simp add: sum_matrix_Nil)

lemma sum_matrix_single:
  assumes "has_shape r c A" "entries_below q A"
  shows "sum_matrix r c q [A] = A"
proof -
  have len: "length A = r" using assms(1) by (simp add: has_shape_def)
  have row: "map (\<lambda>j. of_nat (unat (A ! i ! j) mod unat q)) [0 ..< c] = A ! i" if "i < r" for i
  proof -
    have rl: "length (A ! i) = c" using assms(1) that by (rule has_shape_nth)
    have "(of_nat (unat (A ! i ! j) mod unat q) :: u64) = A ! i ! j" if "j < c" for j
    proof -
      have "A ! i ! j \<in> set (A ! i)" using that rl by simp
      moreover have "A ! i \<in> set A" using \<open>i < r\<close> len by simp
      ultimately have "A ! i ! j < q" using assms(2) by (auto simp: entries_below_def)
      then have "unat (A ! i ! j) mod unat q = unat (A ! i ! j)"
        by (simp add: word_less_nat_alt)
      then show ?thesis by simp
    qed
    then have "map (\<lambda>j. of_nat (unat (A ! i ! j) mod unat q)) [0 ..< c] = map (\<lambda>j. A ! i ! j) [0 ..< c]"
      by (intro map_cong refl) simp
    also have "\<dots> = A ! i" using rl map_nth [of "A ! i"] by simp
    finally show ?thesis .
  qed
  have "sum_matrix r c q [A] = map (\<lambda>i. A ! i) [0 ..< r]"
    unfolding sum_matrix_def by (intro map_cong refl) (simp add: row)
  also have "\<dots> = A" using len map_nth [of A] by simp
  finally show ?thesis .
qed

lemma matrix_sum_eq:
  assumes "As \<noteq> []" "\<forall>A \<in> set As. has_shape r c A \<and> entries_below q A" "0 < r" "q \<noteq> 0"
  shows "matrix_sum As q = Inr (sum_matrix r c q As)"
proof -
  obtain A rest where As: "As = A # rest" using assms(1) by (cases As) auto
  have A: "sum_matrix r c q [A] = A" using assms(2) As by (intro sum_matrix_single) simp_all
  have "matrix_add_all (sum_matrix r c q [A]) rest q = Inr (sum_matrix r c q ([A] @ rest))"
    using assms As by (intro matrix_add_all_sum_matrix) simp_all
  then show ?thesis by (simp add: matrix_sum_def As A)
qed

lemma sum_matrix_mset:
  assumes "mset Bs = mset As"
  shows "sum_matrix r c q Bs = sum_matrix r c q As"
proof -
  have "sum_list (map f Bs) = sum_list (map f As)" for f :: "u64 list list \<Rightarrow> nat"
  proof -
    have "mset (map f Bs) = mset (map f As)" using assms by (metis mset_map)
    then show ?thesis by (metis sum_mset_sum_list)
  qed
  then show ?thesis by (simp add: sum_matrix_def)
qed

lemma empty_matrices_perm:
  assumes "\<forall>A \<in> set As. A = ([] :: u64 list list)" "mset Bs = mset As"
  shows "Bs = As"
proof -
  have "set Bs = set As" using assms(2) by (rule mset_eq_setD)
  then have "\<forall>B \<in> set Bs. B = []" using assms(1) by simp
  then have "Bs = replicate (length Bs) []" by (simp add: replicate_length_same)
  moreover have "As = replicate (length As) []" using assms(1) by (simp add: replicate_length_same)
  moreover have "length Bs = length As" using assms(2) by (rule mset_eq_length)
  ultimately show ?thesis by simp
qed

lemma matrix_add_commute:
  assumes "has_shape r c A" "has_shape r c B" "0 < r" "q \<noteq> 0"
  shows "matrix_add A B q = matrix_add B A q"
  by (simp add: matrix_add_eq [OF assms] matrix_add_eq [OF assms(2,1,3,4)] add.commute)

lemma matrix_add_assoc:
  assumes "has_shape r c A" "has_shape r c B" "has_shape r c C" "0 < r" "q \<noteq> 0"
    and "matrix_add A B q = Inr AB" "matrix_add B C q = Inr BC"
  shows "matrix_add AB C q = matrix_add A BC q"
proof -
  let ?sum = "\<lambda>X Y. map (\<lambda>i. map (\<lambda>j. (of_nat ((unat (X ! i ! j) + unat (Y ! i ! j)) mod unat q) :: u64)) [0 ..< c]) [0 ..< r]"
  have AB: "AB = ?sum A B" using matrix_add_eq [OF assms(1,2,4,5)] assms(6) by simp
  have BC: "BC = ?sum B C" using matrix_add_eq [OF assms(2,3,4,5)] assms(7) by simp
  have shAB: "has_shape r c AB" unfolding AB by (auto simp: has_shape_def)
  have shBC: "has_shape r c BC" unfolding BC by (auto simp: has_shape_def)
  have "(of_nat ((unat (AB ! i ! j) + unat (C ! i ! j)) mod unat q) :: u64) =
        of_nat ((unat (A ! i ! j) + unat (BC ! i ! j)) mod unat q)" if "i < r" "j < c" for i j
  proof -
    have "unat (AB ! i ! j) = (unat (A ! i ! j) + unat (B ! i ! j)) mod unat q"
      using that assms(5) by (simp add: AB unat_of_nat_u64 [OF mod_q_bound])
    moreover have "unat (BC ! i ! j) = (unat (B ! i ! j) + unat (C ! i ! j)) mod unat q"
      using that assms(5) by (simp add: BC unat_of_nat_u64 [OF mod_q_bound])
    ultimately show ?thesis
      by (simp add: mod_add_left_eq mod_add_right_eq add.assoc)
  qed
  then have "?sum AB C = ?sum A BC"
    by (intro map_cong refl) simp_all
  then show ?thesis
    using matrix_add_eq [OF shAB assms(3,4,5)] matrix_add_eq [OF assms(1) shBC assms(4,5)] by simp
qed

section \<open>Facts: Fermat's little theorem\<close>

text \<open>
  From the binomial theorem: a prime \<open>p\<close> divides the inner binomial coefficients, so
  \<open>(a + 1) ^ p\<close> and \<open>a ^ p + 1\<close> agree modulo \<open>p\<close>.
\<close>

lemma is_prime_gt1: "is_prime p \<Longrightarrow> 1 < p"
  by (simp add: is_prime_def)

lemma is_prime_dvd:
  assumes "is_prime p" "d dvd p"
  shows "d = 1 \<or> d = p"
proof (rule ccontr)
  assume n: "\<not> (d = 1 \<or> d = p)"
  have p: "0 < p" using assms(1) by (simp add: is_prime_def)
  then have "d \<le> p" using assms(2) by (simp add: dvd_imp_le)
  moreover have "d \<noteq> 0" using assms(2) p by (metis dvd_0_left_iff less_numeral_extra(3))
  ultimately have "d \<in> {2 ..< p}" using n by auto
  then show False using assms by (auto simp: is_prime_def)
qed

lemma is_prime_coprime:
  assumes "is_prime p" "\<not> p dvd a"
  shows "coprime p a"
proof -
  have "gcd p a dvd p" by simp
  then have "gcd p a = 1 \<or> gcd p a = p" using assms(1) by (rule is_prime_dvd [rotated])
  moreover have "gcd p a \<noteq> p" using assms(2) by (metis gcd_dvd2)
  ultimately show ?thesis by (simp add: coprime_iff_gcd_eq_1)
qed

lemma is_prime_dvd_mult:
  assumes "is_prime p" "p dvd a * b"
  shows "p dvd a \<or> p dvd b"
proof (cases "p dvd a")
  case True
  then show ?thesis by simp
next
  case False
  then have "coprime p a" using assms(1) by (simp add: is_prime_coprime)
  then have "p dvd b" using assms(2) by (simp add: coprime_dvd_mult_right_iff)
  then show ?thesis by simp
qed

lemma is_prime_dvd_choose:
  assumes "is_prime p" "0 < k" "k < p"
  shows "p dvd (p choose k)"
proof -
  have "k * (p choose k) = p * ((p - 1) choose (k - 1))"
    using assms(2) by (rule times_binomial_minus1_eq)
  then have "p dvd k * (p choose k)" by simp
  then have "p dvd k \<or> p dvd (p choose k)" using assms(1) by (rule is_prime_dvd_mult [rotated])
  moreover have "\<not> p dvd k" using assms(2,3) by (simp add: nat_dvd_not_less)
  ultimately show ?thesis by simp
qed

lemma freshman:
  assumes "is_prime p"
  shows "(a + 1) ^ p mod p = (a ^ p + 1) mod (p :: nat)"
proof -
  let ?f = "\<lambda>k. (p choose k) * a ^ k"
  have p: "1 < p" using assms by (rule is_prime_gt1)
  have "(a + 1) ^ p = (\<Sum>k\<le>p. ?f k)"
    using binomial_ring [of a 1 p] by simp
  also have "{..p} = insert 0 (insert p {1 ..< p})" using p by auto
  also have "(\<Sum>k \<in> insert 0 (insert p {1 ..< p}). ?f k) = ?f 0 + (?f p + (\<Sum>k \<in> {1 ..< p}. ?f k))"
    using p by simp
  finally have eq: "(a + 1) ^ p = 1 + (a ^ p + (\<Sum>k \<in> {1 ..< p}. ?f k))" by simp
  have "p dvd (\<Sum>k \<in> {1 ..< p}. ?f k)"
    by (rule dvd_sum) (simp add: is_prime_dvd_choose [OF assms])
  then have h: "(a ^ p + 1 + (\<Sum>k \<in> {1 ..< p}. ?f k)) mod p = (a ^ p + 1) mod p"
    by (metis mod_add_self2 dvd_eq_mod_eq_0 mod_add_right_eq add.right_neutral)
  have eq2: "(a + 1) ^ p = a ^ p + 1 + (\<Sum>k \<in> {1 ..< p}. ?f k)"
    using eq by simp
  show ?thesis by (simp only: eq2 h)
qed

lemma fermat_pow:
  assumes "is_prime p"
  shows "a ^ p mod p = a mod (p :: nat)"
proof (induction a)
  case 0
  have "0 < p" using is_prime_gt1 [OF assms] by simp
  then show ?case by (simp add: power_0_left)
next
  case (Suc a)
  have "Suc a ^ p mod p = (a ^ p + 1) mod p"
    using freshman [OF assms, of a] by simp
  also have "\<dots> = (a ^ p mod p + 1) mod p" by (metis mod_add_left_eq)
  also have "\<dots> = (a mod p + 1) mod p" by (simp only: Suc.IH)
  also have "\<dots> = Suc a mod p" by (metis mod_add_left_eq Suc_eq_plus1)
  finally show ?case .
qed

lemma fermat_little:
  assumes "is_prime p" "\<not> p dvd a"
  shows "a ^ (p - 1) mod p = (1 :: nat)"
proof -
  have p: "1 < p" using assms(1) by (rule is_prime_gt1)
  have a: "0 < a" using assms(2) by (cases "a = 0") auto
  then have one: "1 \<le> a ^ (p - 1)" by simp
  have "a ^ p = a * a ^ (p - 1)" using p by (cases p) simp_all
  then have "(a * a ^ (p - 1)) mod p = (a * 1) mod p" using fermat_pow [OF assms(1), of a] by simp
  moreover have "a * 1 \<le> a * a ^ (p - 1)" using one by (intro mult_le_mono2)
  ultimately have "p dvd a * a ^ (p - 1) - a * 1" by (simp add: mod_eq_dvd_iff_nat)
  then have "p dvd a * (a ^ (p - 1) - 1)" by (simp add: diff_mult_distrib2)
  then have "p dvd a ^ (p - 1) - 1" using is_prime_dvd_mult [OF assms(1)] assms(2) by blast
  then have "a ^ (p - 1) mod p = 1 mod p" by (simp only: mod_eq_dvd_iff_nat [OF one])
  moreover have "1 mod p = 1" using p by simp
  ultimately show ?thesis by simp
qed

section \<open>Facts: the squaring loop\<close>

lemma unat_and_1: "unat ((ex :: u64) AND 1) = unat ex mod 2"
proof -
  have "unat (ex AND 1) = unat ex AND unat (1 :: u64)"
    by (simp only: unsigned_and_eq)
  also have "\<dots> = unat ex mod 2"
    by (simp add: and_one_eq mod_2_eq_odd)
  finally show ?thesis .
qed

lemma bit0_test: "((ex :: u64) AND 1 \<noteq> 0) = odd (unat ex)"
proof -
  have "(ex AND 1 \<noteq> 0) = (unat (ex AND 1) \<noteq> 0)"
    by (simp add: unat_eq_zero)
  also have "\<dots> = odd (unat ex)"
    unfolding unat_and_1 by presburger
  finally show ?thesis .
qed

lemma unat_half: "unat (drop_bit 1 (ex :: u64)) = unat ex div 2"
  unfolding unat_drop_bit_eq by (simp add: drop_bit_eq_div)

lemma unat_mul_mod_u128:
  assumes "unat (x :: u128) < unat md" "unat (y :: u128) < unat md" "unat md \<le> 2 ^ 64"
  shows "unat ((x * y) mod md) = (unat x * unat y) mod unat md"
proof -
  have "unat x * unat y < 2 ^ 64 * 2 ^ 64"
    using assms by (intro mult_strict_mono) simp_all
  then have "unat x * unat y < 2 ^ LENGTH(128)" by simp
  then have "unat (x * y) = unat x * unat y"
    by (simp only: unat_mult_lem [THEN iffD1])
  then show ?thesis by (simp add: unat_mod)
qed

lemma power_halve:
  "(b :: nat) ^ e = (b * b) ^ (e div 2) * (if odd e then b else 1)"
proof -
  have "e = 2 * (e div 2) + (if odd e then 1 else 0)" by presburger
  then have "b ^ e = b ^ (2 * (e div 2) + (if odd e then 1 else 0))" by simp
  also have "\<dots> = (b * b) ^ (e div 2) * (if odd e then b else 1)"
    by (simp add: power_add power_mult power2_eq_square)
  finally show ?thesis .
qed

lemma fast_pow_loop_unat:
  "1 < unat md \<Longrightarrow> unat md \<le> 2 ^ 64 \<Longrightarrow> unat result < unat md \<Longrightarrow> unat b < unat md \<Longrightarrow>
   unat (fast_pow_loop result b ex md) = (unat result * unat b ^ unat ex) mod unat md"
proof (induction result b ex md rule: fast_pow_loop.induct)
  case (1 result b ex md)
  let ?p = "unat md"
  show ?case
  proof (cases "ex = 0")
    case True
    then show ?thesis using "1.prems" by (simp add: fast_pow_loop.simps [of result b ex md])
  next
    case False
    let ?r' = "if ex AND 1 \<noteq> 0 then (result * b) mod md else result"
    let ?b' = "(b * b) mod md"
    have b': "unat ?b' = (unat b * unat b) mod ?p"
      using "1.prems" by (intro unat_mul_mod_u128) simp_all
    have r': "unat ?r' = (unat result * (if odd (unat ex) then unat b else 1)) mod ?p"
      using "1.prems" by (simp add: bit0_test unat_mul_mod_u128)
    have "unat ?r' < ?p" "unat ?b' < ?p"
      using "1.prems"(1) by (simp_all only: r' b' mod_less_divisor) 
    then have "unat (fast_pow_loop ?r' ?b' (drop_bit 1 ex) md) =
          (unat ?r' * unat ?b' ^ unat (drop_bit 1 ex)) mod ?p"
      using "1.IH" [OF False] "1.prems"(1,2) by blast
    also have "\<dots> = ((unat result * (if odd (unat ex) then unat b else 1)) mod ?p *
                    (((unat b * unat b) mod ?p) ^ (unat ex div 2) mod ?p)) mod ?p"
      by (simp only: r' b' unat_half mod_mult_right_eq)
    also have "\<dots> = ((unat result * (if odd (unat ex) then unat b else 1)) *
                    ((unat b * unat b) ^ (unat ex div 2))) mod ?p"
      by (simp only: power_mod mod_mult_eq)
    also have "\<dots> = (unat result * unat b ^ unat ex) mod ?p"
      by (subst power_halve [of "unat b" "unat ex"]) (simp only: mult_ac)
    finally show ?thesis
      using False by (simp add: fast_pow_loop.simps [of result b ex md])
  qed
qed

section \<open>Facts: the modular inverse\<close>

lemma ucast_u128_of_nat: "unat (x :: u128) = n \<Longrightarrow> (ucast x :: u64) = of_nat n"
  by (metis of_nat_unat ucast_id)

lemma fast_pow_eq:
  assumes "1 < unat q"
  shows "fast_pow base ex q = Inr (of_nat (unat base ^ unat ex mod unat q))"
proof -
  have q0: "q \<noteq> 0" and q1: "q \<noteq> 1" using assms by auto
  have md: "unat (ucast q :: u128) = unat q" by (rule unat_up)
  have le: "unat (ucast q :: u128) \<le> 2 ^ 64"
    using u64_bound [of q] by (simp add: md)
  have r: "unat (1 :: u128) < unat (ucast q :: u128)" using assms by (simp add: md)
  have bval: "unat (ucast (base mod q) :: u128) = unat base mod unat q"
    by (simp add: unat_up unat_mod)
  have b: "unat (ucast (base mod q) :: u128) < unat (ucast q :: u128)"
    using assms by (simp add: bval md)
  have "unat (fast_pow_loop 1 (ucast (base mod q)) ex (ucast q)) =
        (unat (1 :: u128) * unat (ucast (base mod q) :: u128) ^ unat ex) mod unat (ucast q :: u128)"
    using assms le r b by (intro fast_pow_loop_unat) (simp_all add: md)
  also have "\<dots> = unat base ^ unat ex mod unat q"
    by (simp add: bval md power_mod)
  finally have "(ucast (fast_pow_loop 1 (ucast (base mod q)) ex (ucast q)) :: u64) =
      of_nat (unat base ^ unat ex mod unat q)"
    by (rule ucast_u128_of_nat)
  then show ?thesis using q0 q1 by (simp add: fast_pow_def)
qed

lemma unat_minus_2: "1 < unat (q :: u64) \<Longrightarrow> unat (q - 2) = unat q - 2"
proof -
  assume "1 < unat q"
  then have "(2 :: u64) \<le> q" by (simp add: word_le_nat_alt)
  then show ?thesis by (simp add: unat_sub)
qed

lemma mod_inverse_eq:
  assumes "1 < unat q" "a \<noteq> 0"
  shows "mod_inverse a q = Inr (of_nat (unat a ^ (unat q - 2) mod unat q))"
  using assms by (simp add: mod_inverse_def fast_pow_eq unat_minus_2)

lemma mod_inverse_correct:
  assumes "is_prime (unat q)" "unat a mod unat q \<noteq> 0"
  shows "\<exists>pivot_inv. mod_inverse a q = Inr pivot_inv \<and>
           unat pivot_inv = unat a ^ (unat q - 2) mod unat q \<and>
           (unat pivot_inv * unat a) mod unat q = 1"
proof -
  let ?p = "unat q"
  have p: "1 < ?p" using assms(1) by (rule is_prime_gt1)
  then have q0: "q \<noteq> 0" by auto
  have a0: "a \<noteq> 0" using assms(2) by auto
  have nd: "\<not> ?p dvd unat a" using assms(2) by (simp add: dvd_eq_mod_eq_0)
  define pivot_inv :: u64 where "pivot_inv = of_nat (unat a ^ (?p - 2) mod ?p)"
  have inv: "mod_inverse a q = Inr pivot_inv"
    unfolding pivot_inv_def using p a0 by (rule mod_inverse_eq)
  have val: "unat pivot_inv = unat a ^ (?p - 2) mod ?p"
    unfolding pivot_inv_def using q0 by (simp add: unat_of_nat_u64 [OF mod_q_bound])
  have "(unat pivot_inv * unat a) mod ?p = (unat a ^ (?p - 2) * unat a) mod ?p"
    by (simp only: val mod_mult_left_eq)
  also have "unat a ^ (?p - 2) * unat a = unat a ^ Suc (?p - 2)" by simp
  also have "Suc (?p - 2) = ?p - 1" using p by simp
  also have "unat a ^ (?p - 1) mod ?p = 1" using assms(1) nd by (rule fermat_little)
  finally show ?thesis using inv val by blast
qed

section \<open>Facts: rows as equations\<close>









section \<open>Facts: the row operations keep the solutions\<close>





section \<open>Facts: the rows after a pivot step\<close>






section \<open>Facts: the invariant of forward elimination\<close>



section \<open>Facts: forward elimination as a whole; leading columns\<close>







section \<open>Facts: back substitution and the solver\<close>







section \<open>The two mixing functions coincide\<close>

text \<open>
  Claim C9. \<open>prf_value\<close> and \<open>hash_partition\<close> are the same function: for every key and
  every input they return the same 64-bit value.
\<close>

theorem prf_value_eq_hash_partition: "prf_value k x = hash_partition k x"
  by (simp add: prf_value_def hash_partition_def)

section \<open>The inverse of zero\<close>

text \<open>
  Claim C7. For every modulus \<open>q\<close> (zero included), \<open>mod_inverse(0, q)\<close> returns the
  value 0 normally; no failure is reached.
\<close>

theorem mod_inverse_zero: "mod_inverse 0 q = Inr 0"
  by (simp add: mod_inverse_def)

section \<open>The empty system\<close>

text \<open>
  Claim C10. For a system without rows, \<open>gaussian_elimination\<close> returns the empty vector,
  whatever \<open>y\<close> and \<open>q\<close> are.
\<close>

theorem gaussian_elimination_no_rows: "gaussian_elimination [] y q = Inr []"
  by (simp add: gaussian_elimination_def)

section \<open>Dimensions are not validated\<close>

text \<open>
  Claim C3 says that \<open>d1 = 0\<close>, or a row of \<open>M\<close> whose length differs from \<open>d1\<close>, is
  rejected before elimination starts and the violation is signalled. The code has no
  such check. Counterexample: for \<open>M = [[]]\<close> (so \<open>d1 = 0\<close>), \<open>y = [5]\<close>, \<open>q = 7\<close> the
  function returns the empty vector normally, and for \<open>M = [[1], [1, 5]]\<close> (second row
  longer than \<open>d1 = 1\<close>), \<open>y = [2, 2]\<close>, \<open>q = 7\<close> it eliminates and returns \<open>[2]\<close>.
\<close>

theorem invalid_dimension_not_rejected:
  "gaussian_elimination [[]] [5] 7 = Inr [] \<and>
   gaussian_elimination [[1], [1, 5]] [2, 2] 7 = Inr [2]"
  by code_simp

text \<open>
  Claim C3, amended. \<open>gaussian_elimination\<close> does not validate dimensions. With \<open>d1 = 0\<close>
  (the first row is empty; \<open>m \<ge> 1\<close> rows and at least \<open>m\<close> targets) no row receives a pivot
  and the empty vector is returned normally. Entries of a row beyond \<open>d1\<close> are ignored: the
  result is that of the system with every row cut to its first \<open>d1\<close> entries. A row
  shorter than \<open>d1\<close> is read past its end while the augmented matrix is built, before any
  elimination step (undefined behaviour, here the value \<open>Inl OutOfBounds\<close>).
\<close>

theorem gaussian_elimination_no_dimension_check:
  assumes "M \<noteq> []" and "length M \<le> length y"
  shows "(hd M = [] \<longrightarrow> gaussian_elimination M y q = Inr [] \<and> pivoted_rows M y q = []) \<and>
         gaussian_elimination (map (take (length (hd M))) M) y q = gaussian_elimination M y q \<and>
         ((\<exists>row \<in> set M. length row < length (hd M)) \<longrightarrow>
            gaussian_elimination M y q = Inl OutOfBounds)"
proof (intro conjI impI)
  assume "hd M = []"
  then show "gaussian_elimination M y q = Inr []"
    using assms by (simp add: ge_empty_first_row)
next
  assume e: "hd M = []"
  obtain M0 rest where M: "M = M0 # rest" using assms(1) by (cases M) auto
  have "build_augmented 0 M y 0 = Inr (map (\<lambda>k. take 0 (M ! k) @ [y ! (0 + k)]) [0 ..< length M])"
    using assms(2) by (intro build_augmented_eq) auto
  then show "pivoted_rows M y q = []"
    using e by (simp add: pivoted_rows_def M)
next
  show "gaussian_elimination (map (take (length (hd M))) M) y q = gaussian_elimination M y q"
    by (rule gaussian_elimination_take)
next
  assume "\<exists>row \<in> set M. length row < length (hd M)"
  then show "gaussian_elimination M y q = Inl OutOfBounds"
    by (rule gaussian_elimination_short_row)
qed

text \<open>
  The theorem at three inputs: an empty first row, a second row longer than the first,
  and a second row shorter than the first.
\<close>

theorem gaussian_elimination_no_dimension_check_witness:
  "[[]] \<noteq> ([] :: u64 list list) \<and> length [[] :: u64 list] \<le> length [5 :: u64] \<and>
   hd [[]] = ([] :: u64 list) \<and>
   gaussian_elimination [[]] [5] 7 = Inr [] \<and> pivoted_rows [[]] [5] 7 = [] \<and>
   gaussian_elimination [[1], [1]] [2, 2] 7 = gaussian_elimination [[1], [1, 5]] [2, 2] 7 \<and>
   list_ex (\<lambda>row. length row < length (hd [[1, 2], [1 :: u64]])) [[1, 2], [1 :: u64]] \<and>
   gaussian_elimination [[1, 2], [1]] [2, 2] 7 = Inl OutOfBounds"
  using gaussian_elimination_no_dimension_check [of "[[]]" "[5]" 7]
    gaussian_elimination_no_dimension_check [of "[[1], [1, 5]]" "[2, 2]" 7]
    gaussian_elimination_no_dimension_check [of "[[1, 2], [1]]" "[2, 2]" 7]
  by simp

section \<open>Inconsistency is never reported\<close>




section \<open>The band vector\<close>

text \<open>
  Claim C5. For every key \<open>k2\<close>, element \<open>x\<close>, dimension \<open>d1\<close> and band width \<open>w\<close> with
  \<open>1 \<le> w \<le> d1\<close>, \<open>sparse_vector\<close> returns a vector of length \<open>d1\<close>. With
  \<open>pos = hash_partition(k2, x) mod (d1 - w + 1)\<close> the band \<open>pos, \<dots>, pos + w - 1\<close> lies inside
  the vector, position \<open>pos + i\<close> of the band holds \<open>hash_partition(k2 xor (x + i), x) mod 2\<close>,
  every position outside the band holds 0, and so every entry is 0 or 1.
\<close>

theorem sparse_vector_band:
  assumes "1 \<le> w" and "w \<le> d1"
  shows "\<exists>v. sparse_vector k2 x d1 w = Inr v \<and> length v = unat d1 \<and>
     (let pos = unat (hash_partition k2 x) mod (unat d1 - unat w + 1)
      in pos + unat w \<le> unat d1 \<and>
         (\<forall>j. j < unat d1 \<longrightarrow>
            v ! j = (if pos \<le> j \<and> j < pos + unat w
                     then ucast (hash_partition (k2 XOR (x + of_nat (j - pos))) x mod 2)
                     else 0) \<and>
            (v ! j = 0 \<or> v ! j = 1)))"
proof -
  define pos where "pos = unat (hash_partition k2 x) mod (unat d1 - unat w + 1)"
  define g :: "nat \<Rightarrow> u8" where "g = (\<lambda>i. ucast (hash_partition (k2 XOR (x + of_nat i)) x mod 2))"
  define v where "v = fold (\<lambda>i v. v[pos + i := g i]) [0 ..< unat w] (replicate (unat d1) 0)"
  have v: "sparse_vector k2 x d1 w = Inr v"
    unfolding v_def pos_def g_def using assms by (rule sparse_vector_eq)
  have len: "length v = unat d1"
    by (simp add: v_def)
  have fit: "pos + unat w \<le> unat d1"
    using band_start(2,3) [OF assms, of "hash_partition k2 x"] by (simp add: pos_def)
  have nth: "v ! j = (if pos \<le> j \<and> j < pos + unat w then g (j - pos) else 0)"
    if "j < unat d1" for j
    using that by (simp add: v_def nth_fold_band)
  have bit: "v ! j = 0 \<or> v ! j = 1" if "j < unat d1" for j
    using nth [OF that] ucast_mod2_cases [of "hash_partition (k2 XOR (x + of_nat (j - pos))) x"]
    by (auto simp: g_def)
  show ?thesis
    using v len fit nth bit unfolding Let_def pos_def [symmetric] g_def by blast
qed

text \<open>The theorem at \<open>k2 = 12345\<close>, \<open>x = 678\<close>, \<open>d1 = 10\<close>, \<open>w = 4\<close>, with the vector computed.\<close>

theorem sparse_vector_band_witness:
  "(1 :: u64) \<le> 4 \<and> (4 :: u64) \<le> 10 \<and>
   (\<exists>v. sparse_vector 12345 678 10 4 = Inr v \<and> length v = 10) \<and>
   sparse_vector 12345 678 10 4 = Inr [0, 0, 0, 0, 0, 1, 1, 0, 0, 0]"
proof -
  have "sparse_vector 12345 678 10 4 = Inr [0, 0, 0, 0, 0, 1, 1, 0, 0, 0]"
    by code_simp
  then show ?thesis
    using sparse_vector_band [of 4 10 12345 678] by (auto simp: Let_def)
qed

section \<open>Aggregation does not depend on the order\<close>

text \<open>
  Claim C8. Let \<open>q \<ge> 1\<close> and let \<open>As\<close> be a list of matrices of one shape \<open>r \<times> c\<close> with
  entries in \<open>[0, q)\<close>. Adding them up with \<open>matrix_add\<close>, from the first one on or from
  the zero matrix, gives the same result for every permutation \<open>Bs\<close> of the list; for a
  nonempty list of nonempty matrices that result is the matrix of the entrywise sums
  modulo \<open>q\<close>. (That \<open>matrix_add\<close> is commutative and associative on such matrices is
  \<open>matrix_add_commute\<close> and \<open>matrix_add_assoc\<close> above.)
\<close>

theorem matrix_sum_order_independent:
  assumes "1 \<le> q" and "\<forall>A \<in> set As. has_shape r c A \<and> entries_below q A"
    and "mset Bs = mset As"
  shows "matrix_sum Bs q = matrix_sum As q \<and>
         matrix_add_all (zero_matrix r c) Bs q = matrix_add_all (zero_matrix r c) As q \<and>
         (As \<noteq> [] \<and> 0 < r \<longrightarrow> matrix_sum As q = Inr (sum_matrix r c q As))"
proof (cases "r = 0")
  case True
  then have "\<forall>A \<in> set As. A = []" using assms(2) by (auto simp: has_shape_def)
  then have "Bs = As" using assms(3) by (rule empty_matrices_perm)
  with True show ?thesis by simp
next
  case False
  then have r: "0 < r" by simp
  have q: "q \<noteq> 0" using assms(1) by auto
  have "set Bs = set As" using assms(3) by (rule mset_eq_setD)
  then have shB: "\<forall>A \<in> set Bs. has_shape r c A \<and> entries_below q A" using assms(2) by simp
  have perm: "sum_matrix r c q Bs = sum_matrix r c q As"
    using assms(3) by (rule sum_matrix_mset)
  have "matrix_add_all (zero_matrix r c) Bs q = Inr (sum_matrix r c q Bs)"
    using shB r q by (intro matrix_add_all_zero) simp_all
  moreover have "matrix_add_all (zero_matrix r c) As q = Inr (sum_matrix r c q As)"
    using assms(2) r q by (intro matrix_add_all_zero) simp_all
  ultimately have zero: "matrix_add_all (zero_matrix r c) Bs q = matrix_add_all (zero_matrix r c) As q"
    using perm by simp
  show ?thesis
  proof (cases "As = []")
    case True
    with assms(3) zero show ?thesis by simp
  next
    case False
    then have Bs: "Bs \<noteq> []" using assms(3) by auto
    have "matrix_sum Bs q = Inr (sum_matrix r c q Bs)"
      using Bs shB r q by (rule matrix_sum_eq)
    moreover have "matrix_sum As q = Inr (sum_matrix r c q As)"
      using False assms(2) r q by (rule matrix_sum_eq)
    ultimately show ?thesis using perm zero by simp
  qed
qed

theorem matrix_sum_order_independent_witness:
  "(1 :: u64) \<le> 7 \<and>
   list_all (\<lambda>A. has_shape 2 2 A \<and> entries_below 7 A) [[[1, 2], [3, 4]], [[6, 6], [6, 6]], [[1, 1], [1, 5]]] \<and>
   mset [[[1, 1], [1, 5]], [[1, 2], [3, 4]], [[6, 6], [6, 6 :: u64]]] =
     mset [[[1, 2], [3, 4]], [[6, 6], [6, 6]], [[1, 1], [1, 5]]] \<and>
   matrix_sum [[[1, 1], [1, 5]], [[1, 2], [3, 4]], [[6, 6], [6, 6]]] 7 =
     matrix_sum [[[1, 2], [3, 4]], [[6, 6], [6, 6]], [[1, 1], [1, 5]]] 7 \<and>
   matrix_add_all (zero_matrix 2 2) [[[1, 1], [1, 5]], [[1, 2], [3, 4]], [[6, 6], [6, 6]]] 7 =
     matrix_add_all (zero_matrix 2 2) [[[1, 2], [3, 4]], [[6, 6], [6, 6]], [[1, 1], [1, 5]]] 7 \<and>
   matrix_sum [[[1, 2], [3, 4]], [[6, 6], [6, 6]], [[1, 1], [1, 5]]] 7 = Inr [[1, 2], [3, 1]]"
proof -
  have h1: "(1 :: u64) \<le> 7" by simp
  have h2: "\<forall>A \<in> set [[[1, 2], [3, 4]], [[6, 6], [6, 6]], [[1, 1], [1, 5 :: u64]]].
              has_shape 2 2 A \<and> entries_below 7 A"
    by (simp add: has_shape_def entries_below_def)
  have h3: "mset [[[1, 1], [1, 5]], [[1, 2], [3, 4]], [[6, 6], [6, 6 :: u64]]] =
     mset [[[1, 2], [3, 4]], [[6, 6], [6, 6]], [[1, 1], [1, 5]]]"
    by simp
  have v: "sum_matrix 2 2 7 [[[1, 2], [3, 4]], [[6, 6], [6, 6]], [[1, 1], [1, 5]]] = [[1, 2], [3, 1]]"
    by code_simp
  show ?thesis
    using matrix_sum_order_independent [OF h1 h2 h3] h1 h2 h3 v by simp
qed

section \<open>The modular inverse\<close>

text \<open>
  Claim C2. For every prime \<open>q\<close> and every \<open>a\<close> with \<open>1 \<le> a < q\<close>, \<open>mod_inverse(a, q)\<close> returns
  the power \<open>a ^ (q - 2) mod q\<close>, computed by the squaring loop of \<open>fast_pow\<close>, and
  \<open>mul_mod(mod_inverse(a, q), a, q) = 1\<close>.
\<close>

theorem mod_inverse_is_inverse:
  assumes "is_prime (unat q)" and "1 \<le> a" and "a < q"
  shows "\<exists>pivot_inv. mod_inverse a q = Inr pivot_inv \<and>
           unat pivot_inv = unat a ^ (unat q - 2) mod unat q \<and>
           mul_mod pivot_inv a q = Inr 1"
proof -
  have p: "1 < unat q" using assms(1) by (rule is_prime_gt1)
  then have q0: "q \<noteq> 0" by auto
  have "0 < unat a" using assms(2) by (simp add: word_le_nat_alt)
  moreover have "unat a < unat q" using assms(3) by (simp add: word_less_nat_alt)
  ultimately have "unat a mod unat q \<noteq> 0" by simp
  then obtain pivot_inv where inv: "mod_inverse a q = Inr pivot_inv"
      "unat pivot_inv = unat a ^ (unat q - 2) mod unat q"
      "(unat pivot_inv * unat a) mod unat q = 1"
    using mod_inverse_correct [OF assms(1)] by blast
  have "mul_mod pivot_inv a q = Inr 1"
    using q0 inv(3) by (simp add: mul_mod_eq)
  with inv show ?thesis by blast
qed

text \<open>The theorem at \<open>q = 7\<close>, \<open>a = 3\<close>, where the inverse is 5.\<close>

theorem mod_inverse_is_inverse_witness:
  "is_prime (unat (7 :: u64)) \<and> (1 :: u64) \<le> 3 \<and> (3 :: u64) < 7 \<and>
   mod_inverse 3 7 = Inr 5 \<and>
   (\<exists>pivot_inv. mod_inverse 3 7 = Inr pivot_inv \<and> mul_mod pivot_inv 3 7 = Inr 1)"
proof -
  have h1: "is_prime (unat (7 :: u64))" by code_simp
  have h2: "(1 :: u64) \<le> 3" by simp
  have h3: "(3 :: u64) < 7" by simp
  have v: "mod_inverse 3 7 = Inr 5" by code_simp
  show ?thesis
    using mod_inverse_is_inverse [OF h1 h2 h3] h1 h2 h3 v by blast
qed

section \<open>The solver satisfies the pivoted rows\<close>




end
